theory Spec2Isabelle
  imports Main "HOL-Library.Word"
begin

section \<open>Entries and intervals\<close>

text \<open>
  Modelled from the spec: the interfaces \<open>Entry\<close> and \<open>Interval\<close> are declared outside
  \<open>immutable.go\<close>. They are the caller's types: the tree only asks an entry for its
  coordinate at a dimension and an interval for its two inclusive bounds at a dimension.
  An entry is an identity together with its coordinates (dimension \<open>d\<close> is position
  \<open>d - 1\<close>), an interval is its list of bounds. Coordinates are \<open>int64\<close> and are only
  compared by the tree, so they are integers here.
\<close>

datatype Entry = MkEntry (ident: nat) (coords: "int list")

definition ValueAtDimension :: "Entry \<Rightarrow> nat \<Rightarrow> int" where
  "ValueAtDimension e d = (if 1 \<le> d \<and> d \<le> length (coords e) then coords e ! (d - 1) else 0)"

datatype Interval = MkInterval (bounds: "(int \<times> int) list")

definition LowAtDimension :: "Interval \<Rightarrow> nat \<Rightarrow> int" where
  "LowAtDimension iv d = (if 1 \<le> d \<and> d \<le> length (bounds iv) then fst (bounds iv ! (d - 1)) else 0)"

definition HighAtDimension :: "Interval \<Rightarrow> nat \<Rightarrow> int" where
  "HighAtDimension iv d = (if 1 \<le> d \<and> d \<le> length (bounds iv) then snd (bounds iv ! (d - 1)) else 0)"

section \<open>The store: nodes, backing arrays and slice variables\<close>

text \<open>
  \<open>orderedNodes\<close> is \<open>[]*node\<close>: a slice header (backing array, length) over an array of
  node pointers. Assigning a slice copies the header only, so two headers can look at one
  array with different lengths. Nodes are objects reached through pointers and are shared
  between trees. The store keeps the node objects, the backing arrays (the capacity of a
  slice is the length of its array) and the slice variables whose address the code takes
  (\<open>&top\<close>, \<open>&nodes\<close>). A \<open>*orderedNodes\<close> is either the address of such a variable
  or the address of the \<open>orderedNodes\<close> field of a node.
\<close>

type_synonym addr = nat

record slice =
  arr :: addr
  len :: nat

record node =
  nvalue :: int
  entry :: "Entry option"
  orderedNodes :: slice

record heap =
  nodes :: "node list"
  arrays :: "addr list list"
  vars :: "slice list"

datatype ptr = PVar nat | PField addr

record ImmutableRangeTree =
  irt_number :: "64 word"
  irt_top :: slice
  irt_dimensions :: nat

text \<open>Array 0 is the empty array every nil slice points at.\<close>

definition NewHeap :: heap where
  "NewHeap = \<lparr>nodes = [], arrays = [[]], vars = []\<rparr>"

definition nil_slice :: slice where
  "nil_slice = \<lparr>arr = 0, len = 0\<rparr>"

definition cells :: "heap \<Rightarrow> slice \<Rightarrow> addr list" where
  "cells h s = (if arr s < length (arrays h) then take (len s) (arrays h ! arr s) else [])"

definition load :: "heap \<Rightarrow> ptr \<Rightarrow> slice" where
  "load h p = (case p of PVar k \<Rightarrow> vars h ! k | PField a \<Rightarrow> orderedNodes (nodes h ! a))"

definition store :: "heap \<Rightarrow> ptr \<Rightarrow> slice \<Rightarrow> heap" where
  "store h p s =
     (case p of
        PVar k \<Rightarrow> h\<lparr>vars := (vars h)[k := s]\<rparr>
      | PField a \<Rightarrow> h\<lparr>nodes := (nodes h)[a := (nodes h ! a)\<lparr>orderedNodes := s\<rparr>]\<rparr>)"

definition alloc_array :: "heap \<Rightarrow> addr list \<Rightarrow> heap \<times> slice" where
  "alloc_array h xs = (h\<lparr>arrays := arrays h @ [xs]\<rparr>, \<lparr>arr = length (arrays h), len = length xs\<rparr>)"

definition alloc_node :: "heap \<Rightarrow> node \<Rightarrow> heap \<times> addr" where
  "alloc_node h n = (h\<lparr>nodes := nodes h @ [n]\<rparr>, length (nodes h))"

definition alloc_var :: "heap \<Rightarrow> slice \<Rightarrow> heap \<times> ptr" where
  "alloc_var h s = (h\<lparr>vars := vars h @ [s]\<rparr>, PVar (length (vars h)))"

text \<open>\<open>nodes := make(orderedNodes, len(*list)); copy(nodes, *list); list = &nodes\<close>\<close>

definition clone_list :: "heap \<Rightarrow> ptr \<Rightarrow> heap \<times> ptr" where
  "clone_list h list =
     (case alloc_array h (cells h (load h list)) of (h1, s) \<Rightarrow> alloc_var h1 s)"

text \<open>\<open>(*list)[i] = n\<close>: a write into the backing array, seen by every header over it.\<close>

definition write_cell :: "heap \<Rightarrow> slice \<Rightarrow> nat \<Rightarrow> addr \<Rightarrow> heap" where
  "write_cell h s i n = h\<lparr>arrays := (arrays h)[arr s := (arrays h ! arr s)[i := n]]\<rparr>"

section \<open>The ordered node list and the node constructor\<close>

text \<open>
  Modelled from the spec: \<open>isLastDimension\<close> is defined outside \<open>immutable.go\<close>. The last
  dimension is dimension D; the test is written \<open>D \<le> d\<close>, which is the same for
  every dimension 1..D the tree visits.
\<close>

definition isLastDimension :: "nat \<Rightarrow> nat \<Rightarrow> bool" where
  "isLastDimension D d = (D \<le> d)"

text \<open>
  Modelled from the spec: \<open>newNode\<close> is defined outside \<open>immutable.go\<close>. Construction fixes the
  value and either the entry (last dimension) or a new empty children list.
\<close>

definition newNode :: "heap \<Rightarrow> int \<Rightarrow> Entry option \<Rightarrow> bool \<Rightarrow> heap \<times> addr" where
  "newNode h v e needNextDimension =
     (if needNextDimension
      then (case alloc_array h [] of (h1, s) \<Rightarrow>
              alloc_node h1 \<lparr>nvalue = v, entry = None, orderedNodes = s\<rparr>)
      else alloc_node h \<lparr>nvalue = v, entry = e, orderedNodes = nil_slice\<rparr>)"

text \<open>
  Modelled from the spec: the binary search of the ordered node list is defined outside
  \<open>immutable.go\<close>. It returns the least index in \<open>[i, j)\<close> whose value satisfies \<open>ok\<close>, or \<open>j\<close>,
  on a list where \<open>ok\<close> is false up to some index and true from it on.
\<close>

function bsearch :: "(int \<Rightarrow> bool) \<Rightarrow> int list \<Rightarrow> nat \<Rightarrow> nat \<Rightarrow> nat" where
  "bsearch ok vs i j =
     (if i < j
      then (if ok (vs ! ((i + j) div 2))
            then bsearch ok vs i ((i + j) div 2)
            else bsearch ok vs ((i + j) div 2 + 1) j)
      else i)"
  by pat_completeness auto
termination
  by (relation "measure (\<lambda>(ok, vs, i, j). j - i)") auto

definition node_values :: "heap \<Rightarrow> slice \<Rightarrow> int list" where
  "node_values h s = map (\<lambda>a. nvalue (nodes h ! a)) (cells h s)"

definition search :: "heap \<Rightarrow> slice \<Rightarrow> int \<Rightarrow> nat" where
  "search h s v = bsearch (\<lambda>x. v \<le> x) (node_values h s) 0 (length (node_values h s))"

text \<open>
  Modelled from the spec: \<open>get(value) -> (Node?, index)\<close>, binary search; the node with
  matching value and its index, or absence.
\<close>

definition on_get :: "heap \<Rightarrow> slice \<Rightarrow> int \<Rightarrow> addr option \<times> nat" where
  "on_get h s v =
     (let i = search h s v; cs = cells h s
      in if i < length cs \<and> nvalue (nodes h ! (cs ! i)) = v then (Some (cs ! i), i) else (None, i))"

text \<open>
  Modelled from the spec: inserting into the list behind a pointer, as \<open>addOrOverwrite\<close>
  and \<open>getOrAdd\<close> do. The slices the tree inserts into are full
  (made with capacity equal to length), so the elements move to a new backing array and
  only the header behind the pointer learns of it.
\<close>

definition insert_at :: "heap \<Rightarrow> ptr \<Rightarrow> nat \<Rightarrow> addr \<Rightarrow> heap" where
  "insert_at h p i n =
     (case alloc_array h (take i (cells h (load h p)) @ n # drop i (cells h (load h p))) of
        (h1, s) \<Rightarrow> store h1 p s)"

text \<open>
  Modelled from the spec: \<open>addOrOverwrite(node) -> Node?\<close>; if a node with equal value
  exists, replace it in place and return the overwritten node, otherwise insert at the
  binary-search insertion point and return absence.
\<close>

definition on_add :: "heap \<Rightarrow> ptr \<Rightarrow> addr \<Rightarrow> heap \<times> addr option" where
  "on_add h p n =
     (let s = load h p; cs = cells h s; i = search h s (nvalue (nodes h ! n))
      in if i < length cs \<and> nvalue (nodes h ! (cs ! i)) = nvalue (nodes h ! n)
         then (write_cell h s i n, Some (cs ! i))
         else (insert_at h p i n, None))"

text \<open>
  Modelled from the spec: \<open>getOrAdd\<close> is defined outside \<open>immutable.go\<close>; it fetches the node for
  the entry's coordinate at this dimension, or creates it (with a new empty children list
  when the dimension is not the last) and inserts it in order.
\<close>

definition on_getOrAdd :: "heap \<Rightarrow> ptr \<Rightarrow> Entry \<Rightarrow> nat \<Rightarrow> nat \<Rightarrow> heap \<times> addr \<times> bool" where
  "on_getOrAdd h p e dimension lastDimension =
     (let s = load h p; cs = cells h s; v = ValueAtDimension e dimension; i = search h s v
      in if i < length cs \<and> nvalue (nodes h ! (cs ! i)) = v
         then (h, cs ! i, False)
         else (case newNode h v (Some e) (\<not> isLastDimension lastDimension dimension) of
                 (h1, n) \<Rightarrow> (insert_at h1 p i n, n, True)))"

text \<open>
  Modelled from the spec: \<open>deleteAt(index)\<close> removes the element at \<open>index\<close>, shifting
  subsequent elements down by one position. The shift happens in the backing array; the
  list behind the pointer becomes one shorter, and the slot it no longer covers keeps what
  it held.
\<close>

definition on_deleteAt :: "heap \<Rightarrow> ptr \<Rightarrow> nat \<Rightarrow> heap" where
  "on_deleteAt h p i =
     (let s = load h p; xs = arrays h ! arr s
      in if len s \<le> i then h
         else store
                (h\<lparr>arrays := (arrays h)[arr s :=
                     take i xs @ drop (Suc i) (take (len s) xs) @ drop (len s - 1) xs]\<rparr>)
                p (s\<lparr>len := len s - 1\<rparr>))"

text \<open>
  Modelled from the spec: \<open>applyRange(low, high, visit) -> bool\<close> locates the nodes whose
  value lies in \<open>[low, high]\<close> (binary search for both bounds) and visits them in
  ascending order; it stops and returns false as soon as a visit returns false. The
  visitor's effect on the caller's variables is the accumulator it threads.
\<close>

fun visit_all :: "(addr \<Rightarrow> 'a \<Rightarrow> bool \<times> 'a) \<Rightarrow> addr list \<Rightarrow> 'a \<Rightarrow> bool \<times> 'a" where
  "visit_all fn [] acc = (True, acc)"
| "visit_all fn (n # ns) acc =
     (case fn n acc of (True, acc1) \<Rightarrow> visit_all fn ns acc1 | (False, acc1) \<Rightarrow> (False, acc1))"

definition on_apply ::
  "heap \<Rightarrow> slice \<Rightarrow> int \<Rightarrow> int \<Rightarrow> (addr \<Rightarrow> 'a \<Rightarrow> bool \<times> 'a) \<Rightarrow> 'a \<Rightarrow> bool \<times> 'a" where
  "on_apply h s low high fn acc =
     (let vs = node_values h s;
          i = bsearch (\<lambda>x. low \<le> x) vs 0 (length vs);
          j = bsearch (\<lambda>x. high < x) vs 0 (length vs)
      in visit_all fn (drop i (take j (cells h s))) acc)"

section \<open>The per-batch cache\<close>

text \<open>
  Modelled from the spec: the cache's element type (\<open>slice.Int64Slice\<close>) is defined outside
  \<open>immutable.go\<close>. Each dimension has a set of node values; \<open>Exists\<close> asks whether a value
  was recorded and \<open>Insert\<close> records it.
\<close>

type_synonym cache = "int list list"

definition Exists :: "int list \<Rightarrow> int \<Rightarrow> bool" where
  "Exists c v = (v \<in> set c)"

definition Insert :: "cache \<Rightarrow> nat \<Rightarrow> int \<Rightarrow> cache" where
  "Insert c k v = c[k := List.insert v (c ! k)]"

text \<open>
  \<open>make([]slice.Int64Slice, 0, dimensions-1)\<close>: with \<open>dimensions = 0\<close> the capacity
  wraps around to \<open>2^64 - 1\<close> and \<open>make\<close> panics; \<open>None\<close> is that panic.
\<close>

definition newCache :: "nat \<Rightarrow> cache option" where
  "newCache dimensions = (if dimensions = 0 then None else Some (replicate dimensions []))"

section \<open>The immutable range tree\<close>

definition NewImmutableRangeTree :: "nat \<Rightarrow> ImmutableRangeTree" where
  "NewImmutableRangeTree dimensions =
     \<lparr>irt_number = 0, irt_top = nil_slice, irt_dimensions = dimensions\<rparr>"

definition Len :: "ImmutableRangeTree \<Rightarrow> 64 word" where
  "Len irt = irt_number irt"

subsection \<open>add\<close>

text \<open>
  The copy-on-write test shared by both branches of the loop body of \<open>add\<close>:
  \<open>i != 1 && !cache[i-1].Exists(node.value)\<close>. \<open>node\<close> is nil only in the first
  iteration, where \<open>i = 1\<close>.
\<close>

definition must_clone :: "heap \<Rightarrow> addr option \<Rightarrow> cache \<Rightarrow> nat \<Rightarrow> bool" where
  "must_clone h node c i =
     (case node of None \<Rightarrow> False
      | Some n \<Rightarrow> i \<noteq> 1 \<and> \<not> Exists (c ! (i - 1)) (nvalue (nodes h ! n)))"

text \<open>The last-dimension branch (lines 44 to 61).\<close>

definition add_last ::
  "heap \<Rightarrow> ptr \<Rightarrow> addr option \<Rightarrow> cache \<Rightarrow> Entry \<Rightarrow> nat \<Rightarrow> 64 word \<Rightarrow> heap \<times> cache \<times> 64 word" where
  "add_last h list node c e i added =
     (case (if must_clone h node c i
            then (case clone_list h list of (h0, p) \<Rightarrow>
                    (h0, p, Insert c (i - 1) (nvalue (nodes h ! the node))))
            else (h, list, c)) of
        (h1, list1, c1) \<Rightarrow>
          (case newNode h1 (ValueAtDimension e i) (Some e) False of
             (h2, nn) \<Rightarrow>
               (case on_add h2 list1 nn of
                  (h3, overwritten) \<Rightarrow>
                    ((case node of
                        None \<Rightarrow> h3
                      | Some n \<Rightarrow> store h3 (PField n) (load h3 list1)),
                     c1,
                     (if overwritten = None then added + 1 else added)))))"

text \<open>The other dimensions (lines 63 to 72): returns the node descended into.\<close>

definition add_descend ::
  "heap \<Rightarrow> ptr \<Rightarrow> addr option \<Rightarrow> cache \<Rightarrow> Entry \<Rightarrow> nat \<Rightarrow> nat \<Rightarrow> heap \<times> addr \<times> cache" where
  "add_descend h list node c e i D =
     (case (if must_clone h node c i
            then (case clone_list h list of (h0, p) \<Rightarrow>
                    (store h0 (PField (the node)) (load h0 p), p,
                     Insert c (i - 1) (nvalue (nodes h ! the node))))
            else (h, list, c)) of
        (h1, list1, c1) \<Rightarrow>
          (case on_getOrAdd h1 list1 e i D of (h2, n, _) \<Rightarrow> (h2, n, c1)))"

function add_loop ::
  "nat \<Rightarrow> Entry \<Rightarrow> nat \<Rightarrow> heap \<Rightarrow> ptr \<Rightarrow> addr option \<Rightarrow> cache \<Rightarrow> 64 word \<Rightarrow> heap \<times> cache \<times> 64 word" where
  "add_loop D e i h list node c added =
     (if D < i then (h, c, added)
      else if isLastDimension D i then add_last h list node c e i added
      else (case add_descend h list node c e i D of
              (h2, n, c1) \<Rightarrow> add_loop D e (Suc i) h2 (PField n) (Some n) c1 added))"
  by pat_completeness auto
termination
  by (relation "measure (\<lambda>(D, e, i, h, list, node, c, added). Suc D - i)") auto

definition irt_add ::
  "nat \<Rightarrow> heap \<Rightarrow> ptr \<Rightarrow> cache \<Rightarrow> Entry \<Rightarrow> 64 word \<Rightarrow> heap \<times> cache \<times> 64 word" where
  "irt_add D h ptop c e added = add_loop D e 1 h ptop None c added"

fun add_all ::
  "nat \<Rightarrow> ptr \<Rightarrow> Entry list \<Rightarrow> heap \<Rightarrow> cache \<Rightarrow> 64 word \<Rightarrow> heap \<times> 64 word" where
  "add_all D ptop [] h c added = (h, added)"
| "add_all D ptop (e # es) h c added =
     (case irt_add D h ptop c e added of (h1, c1, added1) \<Rightarrow> add_all D ptop es h1 c1 added1)"

definition Add ::
  "heap \<Rightarrow> ImmutableRangeTree \<Rightarrow> Entry list \<Rightarrow> (heap \<times> ImmutableRangeTree) option" where
  "Add h irt entries =
     (if entries = [] then Some (h, irt)
      else (case newCache (irt_dimensions irt) of
              None \<Rightarrow> None
            | Some c \<Rightarrow>
                (case alloc_array h (cells h (irt_top irt)) of
                   (h1, s) \<Rightarrow>
                     (case alloc_var h1 s of
                        (h2, ptop) \<Rightarrow>
                          (case add_all (irt_dimensions irt) ptop entries h2 c 0 of
                             (h3, added) \<Rightarrow>
                               Some (h3, \<lparr>irt_number = irt_number irt + added,
                                          irt_top = load h3 ptop,
                                          irt_dimensions = irt_dimensions irt\<rparr>))))))"

subsection \<open>delete\<close>

record immutableNodeBundle =
  nb_list :: ptr
  nb_index :: nat
  nb_previousNode :: "addr option"
  nb_newNode :: "addr option"

text \<open>
  The descent (lines 153 to 168): \<open>None\<close> is the early return when a lookup fails,
  otherwise the recorded path.
\<close>

function delete_find ::
  "heap \<Rightarrow> nat \<Rightarrow> Entry \<Rightarrow> nat \<Rightarrow> ptr \<Rightarrow> addr option \<Rightarrow> immutableNodeBundle list
     \<Rightarrow> immutableNodeBundle list option" where
  "delete_find h D e i list n path =
     (if D < i then Some path
      else (case on_get h (load h list) (ValueAtDimension e i) of
              (None, index) \<Rightarrow> None
            | (Some local, index) \<Rightarrow>
                delete_find h D e (Suc i) (PField local) (Some local)
                  (path @ [\<lparr>nb_list = list, nb_index = index,
                            nb_previousNode = n, nb_newNode = None\<rparr>])))"
  by pat_completeness auto
termination
  by (relation "measure (\<lambda>(h, D, e, i, list, n, path). Suc D - i)") auto

text \<open>
  The bottom-up walk (lines 172 to 189); \<open>delete_rebuild D (Suc i)\<close> handles \<open>path[i]\<close>
  and goes on with \<open>i - 1\<close>. Only \<open>path[0]\<close> has no previous node, so \<open>path[i-1]\<close>
  exists whenever it is written.
\<close>

definition set_list :: "immutableNodeBundle list \<Rightarrow> nat \<Rightarrow> ptr \<Rightarrow> immutableNodeBundle list" where
  "set_list path i p = path[i := (path ! i)\<lparr>nb_list := p\<rparr>]"

definition set_newNode :: "immutableNodeBundle list \<Rightarrow> nat \<Rightarrow> addr \<Rightarrow> immutableNodeBundle list" where
  "set_newNode path i nn = path[i := (path ! i)\<lparr>nb_newNode := Some nn\<rparr>]"

fun delete_rebuild ::
  "nat \<Rightarrow> nat \<Rightarrow> heap \<Rightarrow> immutableNodeBundle list \<Rightarrow> heap \<times> immutableNodeBundle list" where
  "delete_rebuild D 0 h path = (h, path)"
| "delete_rebuild D (Suc i) h path =
     (case nb_previousNode (path ! i) of
        None \<Rightarrow> delete_rebuild D i h path
      | Some prev \<Rightarrow>
          (case clone_list h (nb_list (path ! i)) of
             (h1, p) \<Rightarrow>
               if len (load h1 p) = 1
               then delete_rebuild D i h1 (set_list path i p)
               else (case newNode h1 (nvalue (nodes h1 ! prev)) (entry (nodes h1 ! prev))
                            (\<not> isLastDimension D (i + 1)) of
                       (h2, nn) \<Rightarrow>
                         delete_rebuild D i (store h2 (PField nn) (load h2 p))
                           (set_newNode (set_list path i p) (i - 1) nn))))"

text \<open>The top-down splice (lines 191 to 197).\<close>

fun delete_splice :: "heap \<Rightarrow> immutableNodeBundle list \<Rightarrow> heap" where
  "delete_splice h [] = h"
| "delete_splice h (nb # rest) =
     (case nb_newNode nb of
        None \<Rightarrow> delete_splice (on_deleteAt h (nb_list nb) (nb_index nb)) rest
      | Some nn \<Rightarrow> delete_splice (write_cell h (load h (nb_list nb)) (nb_index nb) nn) rest)"

text \<open>\<open>delete\<close> (lines 144 to 198); its \<open>cache\<close> parameter is never read.\<close>

definition irt_delete :: "nat \<Rightarrow> heap \<Rightarrow> ptr \<Rightarrow> Entry \<Rightarrow> 64 word \<Rightarrow> heap \<times> 64 word" where
  "irt_delete D h ptop e deleted =
     (case delete_find h D e 1 ptop None [] of
        None \<Rightarrow> (h, deleted)
      | Some path \<Rightarrow>
          (case delete_rebuild D (length path) h path of
             (h1, path1) \<Rightarrow> (delete_splice h1 path1, deleted + 1)))"

fun delete_all :: "nat \<Rightarrow> ptr \<Rightarrow> Entry list \<Rightarrow> heap \<Rightarrow> 64 word \<Rightarrow> heap \<times> 64 word" where
  "delete_all D ptop [] h deleted = (h, deleted)"
| "delete_all D ptop (e # es) h deleted =
     (case irt_delete D h ptop e deleted of (h1, deleted1) \<Rightarrow> delete_all D ptop es h1 deleted1)"

definition Delete ::
  "heap \<Rightarrow> ImmutableRangeTree \<Rightarrow> Entry list \<Rightarrow> (heap \<times> ImmutableRangeTree) option" where
  "Delete h irt entries =
     (case newCache (irt_dimensions irt) of
        None \<Rightarrow> None
      | Some c \<Rightarrow>
          (case alloc_array h (cells h (irt_top irt)) of
             (h1, s) \<Rightarrow>
               (case alloc_var h1 s of
                  (h2, ptop) \<Rightarrow>
                    (case delete_all (irt_dimensions irt) ptop entries h2 0 of
                       (h3, deleted) \<Rightarrow>
                         Some (h3, \<lparr>irt_number = irt_number irt - deleted,
                                    irt_top = load h3 ptop,
                                    irt_dimensions = irt_dimensions irt\<rparr>)))))"

subsection \<open>InsertAtDimension\<close>

text \<open>
  Lines 102 to 120. The rewrite of the lists, \<open>immutableInsert\<close>, is defined outside
  \<open>immutable.go\<close> and the spec does not fix what it does on a collision, so it is a parameter: from
  the store, the top list and the arguments of the call it gives the new store, the new
  top list and the two lists it filled (both start empty).
\<close>

definition InsertAtDimension ::
  "(heap \<Rightarrow> slice \<Rightarrow> nat \<Rightarrow> nat \<Rightarrow> nat \<Rightarrow> int \<Rightarrow> int
      \<Rightarrow> heap \<times> slice \<times> Entry option list \<times> Entry option list)
   \<Rightarrow> heap \<Rightarrow> ImmutableRangeTree \<Rightarrow> nat \<Rightarrow> int \<Rightarrow> int
   \<Rightarrow> heap \<times> ImmutableRangeTree \<times> Entry option list \<times> Entry option list" where
  "InsertAtDimension immutableInsert h irt dimension index number =
     (if irt_dimensions irt < dimension \<or> number = 0 then (h, irt, [], [])
      else (case immutableInsert h (irt_top irt) dimension 1 (irt_dimensions irt) index number of
              (h1, top1, modified, deleted) \<Rightarrow>
                (h1,
                 \<lparr>irt_number = irt_number irt - of_nat (length deleted),
                  irt_top = top1,
                  irt_dimensions = irt_dimensions irt\<rparr>,
                 modified, deleted)))"

subsection \<open>apply and Query\<close>

function irt_apply ::
  "heap \<Rightarrow> nat \<Rightarrow> slice \<Rightarrow> Interval \<Rightarrow> nat \<Rightarrow> (addr \<Rightarrow> 'a \<Rightarrow> bool \<times> 'a) \<Rightarrow> 'a \<Rightarrow> bool \<times> 'a" where
  "irt_apply h D list iv dimension fn acc =
     (if isLastDimension D dimension
      then on_apply h list (LowAtDimension iv dimension) (HighAtDimension iv dimension) fn acc
      else on_apply h list (LowAtDimension iv dimension) (HighAtDimension iv dimension)
             (\<lambda>n acc1. irt_apply h D (orderedNodes (nodes h ! n)) iv (dimension + 1) fn acc1)
             acc)"
  by pat_completeness auto
termination
  by (relation "measure (\<lambda>(h, D, list, iv, dimension, fn, acc). D - dimension)")
    (auto simp: isLastDimension_def)

definition Query :: "heap \<Rightarrow> ImmutableRangeTree \<Rightarrow> Interval \<Rightarrow> Entry option list" where
  "Query h irt iv =
     snd (irt_apply h (irt_dimensions irt) (irt_top irt) iv 1
            (\<lambda>n entries. (True, entries @ [entry (nodes h ! n)])) [])"

section \<open>Notions the properties are stated with\<close>

text \<open>
  A store is well formed when every slice of a node names an existing backing array and
  every array cell names an existing node.
\<close>

definition heap_ok :: "heap \<Rightarrow> bool" where
  "heap_ok h =
     ((\<forall>n\<in>set (nodes h). arr (orderedNodes n) < length (arrays h)) \<and>
      (\<forall>xs\<in>set (arrays h). \<forall>a\<in>set xs. a < length (nodes h)))"

text \<open>
  The D-tuple of \<open>e\<close> is present below the list \<open>s\<close> of dimension \<open>i\<close>: some node of
  the list carries the coordinate of dimension \<open>i\<close> and the rest of the tuple is present
  below that node.
\<close>

function tuple_present :: "heap \<Rightarrow> nat \<Rightarrow> slice \<Rightarrow> Entry \<Rightarrow> nat \<Rightarrow> bool" where
  "tuple_present h D s e i =
     (if D < i then True
      else (\<exists>a\<in>set (cells h s).
              nvalue (nodes h ! a) = ValueAtDimension e i \<and>
              tuple_present h D (orderedNodes (nodes h ! a)) e (Suc i)))"
  by pat_completeness auto
termination
  by (relation "measure (\<lambda>(h, D, s, e, i). Suc D - i)") auto



text \<open>
  A store the operations can work on: well formed, with the empty array of the nil slice in
  place and every slice variable naming an existing array.
\<close>

definition store_ok :: "heap \<Rightarrow> bool" where
  "store_ok h = (heap_ok h \<and> 0 < length (arrays h) \<and> (\<forall>s\<in>set (vars h). arr s < length (arrays h)))"

text \<open>
  The store only grows: nothing allocated is ever freed.
\<close>

definition grows :: "heap \<Rightarrow> heap \<Rightarrow> bool" where
  "grows h h' = (length (nodes h) \<le> length (nodes h') \<and> length (arrays h) \<le> length (arrays h') \<and>
                 length (vars h) \<le> length (vars h'))"

text \<open>
  A pointer into the store.
\<close>

definition ptr_ok :: "heap \<Rightarrow> ptr \<Rightarrow> bool" where
  "ptr_ok h p = (case p of PVar k \<Rightarrow> k < length (vars h) | PField a \<Rightarrow> a < length (nodes h))"

text \<open>
  A node pointer that is nil or points into the store.
\<close>

definition node_ok :: "heap \<Rightarrow> addr option \<Rightarrow> bool" where
  "node_ok h node = (case node of None \<Rightarrow> True | Some n \<Rightarrow> n < length (nodes h))"

text \<open>
  The top list of a tree names an existing array.
\<close>

definition tree_ok :: "heap \<Rightarrow> ImmutableRangeTree \<Rightarrow> bool" where
  "tree_ok h t = (arr (irt_top t) < length (arrays h))"

text \<open>
  A path element whose pointers point into the store.
\<close>

definition bundle_ok :: "heap \<Rightarrow> immutableNodeBundle \<Rightarrow> bool" where
  "bundle_ok h nb = (ptr_ok h (nb_list nb) \<and> node_ok h (nb_previousNode nb) \<and> node_ok h (nb_newNode nb))"

text \<open>
  The stores and trees a program builds: starting from the empty store it constructs
  trees and derives trees from earlier ones with \<open>Add\<close> and \<open>Delete\<close>; all trees built so
  far stay in use.
\<close>

inductive lineage :: "heap \<Rightarrow> ImmutableRangeTree list \<Rightarrow> bool" where
  start: "lineage NewHeap []"
| new: "lineage h ts \<Longrightarrow> lineage h (NewImmutableRangeTree D # ts)"
| add: "lineage h ts \<Longrightarrow> t \<in> set ts \<Longrightarrow> Add h t es = Some (h', t') \<Longrightarrow> lineage h' (t' # ts)"
| delete: "lineage h ts \<Longrightarrow> t \<in> set ts \<Longrightarrow> Delete h t es = Some (h', t') \<Longrightarrow> lineage h' (t' # ts)"

text \<open>The tree of the spec's scenario: D = 2 with the points (1,1), (1,2) and (2,1).\<close>

definition scenario :: "heap \<times> ImmutableRangeTree" where
  "scenario =
     the (Add NewHeap (NewImmutableRangeTree 2)
            [MkEntry 1 [1, 1], MkEntry 2 [1, 2], MkEntry 3 [2, 1]])"

section \<open>Immutability, contents and count on concrete trees\<close>

text \<open>
  C1. Immutability: querying a tree T after a mutating operation has produced T' yields
  what it yielded before. It fails for \<open>Add\<close> in two dimensions: T holds (1,0), and
  adding (1,1) to it fetches T's own node for coordinate 1 and assigns the cloned children
  list to that node (\<open>node.orderedNodes = *list\<close>), so T, whose length is still 1,
  now answers with both entries.
\<close>

theorem Add_writes_into_parent_tree:
  "(case Add NewHeap (NewImmutableRangeTree 2) [MkEntry 1 [1, 0]] of
      None \<Rightarrow> False
    | Some (h1, t1) \<Rightarrow>
        (case Add h1 t1 [MkEntry 2 [1, 1]] of
           None \<Rightarrow> False
         | Some (h2, t2) \<Rightarrow>
             Query h1 t1 (MkInterval [(0, 5), (0, 5)]) = [Some (MkEntry 1 [1, 0])] \<and>
             Query h2 t1 (MkInterval [(0, 5), (0, 5)]) =
               [Some (MkEntry 1 [1, 0]), Some (MkEntry 2 [1, 1])] \<and>
             Len t1 = 1))"
  by code_simp

text \<open>
  C2. Range correctness: Query returns exactly the inserted tuples inside the interval.
  It fails in three dimensions: after adding (1,1,1) to the empty tree, the interval
  [0,5] x [0,5] x [0,5] contains the tuple and Query returns nothing. In \<open>add\<close>, at a
  dimension that is neither the first nor the last, the parent node receives the cloned
  list before \<open>getOrAdd\<close> inserts the new child into the clone, so the child is never
  linked.
\<close>

theorem Query_misses_inserted_tuple:
  "(case Add NewHeap (NewImmutableRangeTree 3) [MkEntry 1 [1, 1, 1]] of
      None \<Rightarrow> False
    | Some (h1, t1) \<Rightarrow>
        map (\<lambda>d. LowAtDimension (MkInterval [(0, 5), (0, 5), (0, 5)]) d
                    \<le> ValueAtDimension (MkEntry 1 [1, 1, 1]) d \<and>
                  ValueAtDimension (MkEntry 1 [1, 1, 1]) d
                    \<le> HighAtDimension (MkInterval [(0, 5), (0, 5), (0, 5)]) d) [1, 2, 3]
          = [True, True, True] \<and>
        Query h1 t1 (MkInterval [(0, 5), (0, 5), (0, 5)]) = [])"
  by code_simp

text \<open>
  C3. Count consistency: \<open>Len\<close> equals the number of tuples reachable by traversal. It
  fails in three dimensions: after adding (1,1,1) to the empty tree \<open>Len\<close> is 1, the top
  list has one node, and that node has no children, so no tuple is reachable.
\<close>

theorem Len_counts_unreachable_tuple:
  "(case Add NewHeap (NewImmutableRangeTree 3) [MkEntry 1 [1, 1, 1]] of
      None \<Rightarrow> False
    | Some (h1, t1) \<Rightarrow>
        Len t1 = 1 \<and>
        length (cells h1 (irt_top t1)) = 1 \<and>
        concat (map (\<lambda>a. cells h1 (orderedNodes (nodes h1 ! a))) (cells h1 (irt_top t1))) = [])"
  by code_simp

text \<open>
  C4. Idempotent overwrite: adding e and then e' with the same coordinates leaves \<open>Len\<close>
  unchanged and Query returns e'. It fails in three dimensions: the second \<open>Add\<close> does
  not find the tuple of the first (it was never linked), counts a new entry, and Query
  at the coordinates returns neither entry.
\<close>

theorem Add_twice_counts_twice:
  "(case Add NewHeap (NewImmutableRangeTree 3) [MkEntry 1 [1, 1, 1]] of
      None \<Rightarrow> False
    | Some (h1, t1) \<Rightarrow>
        (case Add h1 t1 [MkEntry 2 [1, 1, 1]] of
           None \<Rightarrow> False
         | Some (h2, t2) \<Rightarrow>
             Len t1 = 1 \<and> Len t2 = 2 \<and>
             Query h2 t2 (MkInterval [(1, 1), (1, 1), (1, 1)]) = []))"
  by code_simp

text \<open>
  C5. Add/Delete inverse: for e not in T, \<open>T.Add(e).Delete(e)\<close> has the length of T. It
  fails in three dimensions: T is empty with length 0, \<open>Add\<close> counts e without linking
  it, \<open>Delete\<close> then does not find e and skips it, and the length stays 1.
\<close>

theorem Add_then_Delete_keeps_count:
  "(case Add NewHeap (NewImmutableRangeTree 3) [MkEntry 1 [1, 1, 1]] of
      None \<Rightarrow> False
    | Some (h1, t1) \<Rightarrow>
        (case Delete h1 t1 [MkEntry 1 [1, 1, 1]] of
           None \<Rightarrow> False
         | Some (h2, t2) \<Rightarrow>
             Len (NewImmutableRangeTree 3) = 0 \<and> Len t2 = 1 \<and>
             \<not> tuple_present NewHeap 3 (irt_top (NewImmutableRangeTree 3)) (MkEntry 1 [1, 1, 1]) 1))"
  by code_simp


text \<open>
  C8. Every node at a dimension below D has a non-empty children list. It fails in three
  dimensions: after adding (1,1,1) to the empty tree, the node of the top list (dimension
  1) has a children list of length 0.
\<close>

theorem Add_leaves_empty_children:
  "(case Add NewHeap (NewImmutableRangeTree 3) [MkEntry 1 [1, 1, 1]] of
      None \<Rightarrow> False
    | Some (h1, t1) \<Rightarrow>
        map (\<lambda>a. len (orderedNodes (nodes h1 ! a))) (cells h1 (irt_top t1)) = [0])"
  by code_simp

section \<open>Growing the store leaves queries alone\<close>

declare irt_apply.simps [simp del] tuple_present.simps [simp del] delete_find.simps [simp del]
  add_loop.simps [simp del]

lemma cells_in_heap:
  assumes "heap_ok h" "a \<in> set (cells h s)"
  shows "a < length (nodes h)" and "arr (orderedNodes (nodes h ! a)) < length (arrays h)"
proof -
  from assms(2) have as: "arr s < length (arrays h)" "a \<in> set (arrays h ! arr s)"
    by (auto simp: cells_def split: if_splits dest: in_set_takeD)
  then have "arrays h ! arr s \<in> set (arrays h)" by simp
  with assms(1) as show "a < length (nodes h)" by (auto simp: heap_ok_def)
  then have "nodes h ! a \<in> set (nodes h)" by simp
  with assms(1) show "arr (orderedNodes (nodes h ! a)) < length (arrays h)"
    by (auto simp: heap_ok_def)
qed

lemma cells_grow:
  assumes "arr s < length (arrays h)" "arrays h' = arrays h @ ys"
  shows "cells h' s = cells h s"
  using assms by (simp add: cells_def nth_append)

lemma visit_all_cong:
  "(\<And>n a. n \<in> set ns \<Longrightarrow> f n a = g n a) \<Longrightarrow> visit_all f ns acc = visit_all g ns acc"
  by (induction ns arbitrary: acc) (auto split: prod.splits bool.splits)

lemma on_apply_cong:
  assumes "cells h' s' = cells h s" "nodes h' = nodes h"
    and "\<And>n a. n \<in> set (cells h s) \<Longrightarrow> f n a = g n a"
  shows "on_apply h' s' lo hi f acc = on_apply h s lo hi g acc"
proof -
  have nv: "node_values h' s' = node_values h s"
    using assms(1,2) by (simp add: node_values_def)
  have "\<And>i j n a. n \<in> set (drop i (take j (cells h s))) \<Longrightarrow> f n a = g n a"
    using assms(3) by (meson in_set_dropD in_set_takeD)
  then show ?thesis
    unfolding on_apply_def Let_def nv assms(1) by (intro visit_all_cong) 
qed

lemma irt_apply_grow:
  "heap_ok h \<Longrightarrow> nodes h' = nodes h \<Longrightarrow> arrays h' = arrays h @ ys \<Longrightarrow> cells h' s' = cells h s
   \<Longrightarrow> irt_apply h' D s' iv d fn acc = irt_apply h D s iv d fn acc"
proof (induction h D s iv d fn acc arbitrary: s' rule: irt_apply.induct)
  case (1 h D list iv dimension fn acc)
  show ?case
  proof (cases "isLastDimension D dimension")
    case True
    then show ?thesis
      using on_apply_cong [OF "1.prems"(4) "1.prems"(2), of fn fn]
      by (simp add: irt_apply.simps [of h'] irt_apply.simps [of h])
  next
    case False
    have "irt_apply h' D (orderedNodes (nodes h' ! n)) iv (dimension + 1) fn a =
          irt_apply h D (orderedNodes (nodes h ! n)) iv (dimension + 1) fn a"
      if "n \<in> set (cells h list)" for n a
    proof -
      have "cells h' (orderedNodes (nodes h ! n)) = cells h (orderedNodes (nodes h ! n))"
        using cells_in_heap(2) [OF "1.prems"(1) that] "1.prems"(3) by (rule cells_grow)
      then show ?thesis
        using "1.IH" [OF False "1.prems"(1,2,3)] "1.prems"(2) by simp
    qed
    then have "on_apply h' s' (LowAtDimension iv dimension) (HighAtDimension iv dimension)
             (\<lambda>n acc1. irt_apply h' D (orderedNodes (nodes h' ! n)) iv (dimension + 1) fn acc1) acc =
          on_apply h list (LowAtDimension iv dimension) (HighAtDimension iv dimension)
             (\<lambda>n acc1. irt_apply h D (orderedNodes (nodes h ! n)) iv (dimension + 1) fn acc1) acc"
      by (intro on_apply_cong [OF "1.prems"(4) "1.prems"(2)])
    moreover have "irt_apply h' D s' iv dimension fn acc =
          on_apply h' s' (LowAtDimension iv dimension) (HighAtDimension iv dimension)
             (\<lambda>n acc1. irt_apply h' D (orderedNodes (nodes h' ! n)) iv (dimension + 1) fn acc1) acc"
      using False by (subst irt_apply.simps) simp
    moreover have "irt_apply h D list iv dimension fn acc =
          on_apply h list (LowAtDimension iv dimension) (HighAtDimension iv dimension)
             (\<lambda>n acc1. irt_apply h D (orderedNodes (nodes h ! n)) iv (dimension + 1) fn acc1) acc"
      using False by (subst irt_apply.simps) simp
    ultimately show ?thesis by simp
  qed
qed

lemma Query_grow:
  assumes "heap_ok h" "nodes h' = nodes h" "arrays h' = arrays h @ ys"
    "cells h' (irt_top t') = cells h (irt_top t)" "irt_dimensions t' = irt_dimensions t"
  shows "Query h' t' iv = Query h t iv"
  using assms(2,5) by (simp add: Query_def irt_apply_grow [OF assms(1-4)])


section \<open>The operations keep the store well formed\<close>

text \<open>
  Go has no dangling pointers. In the model this is an invariant: every store built from
  the empty one by \<open>Add\<close> and \<open>Delete\<close> is well formed, and every tree built on the way
  stays valid in it.
\<close>

lemma on_get_Some:
  assumes "on_get h s v = (Some a, i)"
  shows "a \<in> set (cells h s)" and "nvalue (nodes h ! a) = v"
  using assms by (auto simp: on_get_def Let_def split: if_splits)

lemma grows_refl [simp]: "grows h h"
  by (simp add: grows_def)

lemma grows_trans: "grows a b \<Longrightarrow> grows b c \<Longrightarrow> grows a c"
  by (auto simp: grows_def)

lemma ptr_ok_grows: "ptr_ok h p \<Longrightarrow> grows h h' \<Longrightarrow> ptr_ok h' p"
  by (auto simp: ptr_ok_def grows_def split: ptr.splits)

lemma load_ok: "store_ok h \<Longrightarrow> ptr_ok h p \<Longrightarrow> arr (load h p) < length (arrays h)"
  by (auto simp: store_ok_def heap_ok_def ptr_ok_def load_def split: ptr.splits)

lemma cells_ok: "store_ok h \<Longrightarrow> a \<in> set (cells h s) \<Longrightarrow> a < length (nodes h)"
  using cells_in_heap(1) by (simp add: store_ok_def)

lemma alloc_array_ok:
  assumes "store_ok h" "\<forall>a\<in>set xs. a < length (nodes h)" "alloc_array h xs = (h', s)"
  shows "store_ok h'" "grows h h'" "arr s < length (arrays h')"
  using assms by (auto simp: alloc_array_def store_ok_def heap_ok_def grows_def less_Suc_eq)

lemma alloc_node_ok:
  assumes "store_ok h" "arr (orderedNodes n) < length (arrays h)" "alloc_node h n = (h', a)"
  shows "store_ok h'" "grows h h'" "a < length (nodes h')"
  using assms by (auto simp: alloc_node_def store_ok_def heap_ok_def grows_def less_Suc_eq)

lemma alloc_var_ok:
  assumes "store_ok h" "arr s < length (arrays h)" "alloc_var h s = (h', p)"
  shows "store_ok h'" "grows h h'" "ptr_ok h' p"
  using assms by (auto simp: alloc_var_def store_ok_def heap_ok_def grows_def ptr_ok_def)

lemma store_ok_store:
  assumes "store_ok h" "arr s < length (arrays h)"
  shows "store_ok (store h p s)" "grows h (store h p s)"
  using assms
  by (auto simp: store_def store_ok_def heap_ok_def grows_def split: ptr.splits
      dest!: set_update_subset_insert [THEN subsetD])

lemma in_set_updateD:
  "x \<in> set (A[k := y]) \<Longrightarrow> x \<in> set A \<or> (k < length A \<and> x = y)"
  by (cases "k < length A") (auto simp: list_update_beyond dest: set_update_subset_insert [THEN subsetD])

lemma write_cell_ok:
  assumes "store_ok h" "n < length (nodes h)"
  shows "store_ok (write_cell h s i n)" "grows h (write_cell h s i n)"
  using assms
  by (auto simp: write_cell_def store_ok_def heap_ok_def grows_def dest!: in_set_updateD)

lemma on_deleteAt_ok:
  assumes "store_ok h" "ptr_ok h p"
  shows "store_ok (on_deleteAt h p i)" "grows h (on_deleteAt h p i)"
proof -
  let ?s = "load h p"
  let ?xs = "arrays h ! arr ?s"
  let ?h1 = "h\<lparr>arrays := (arrays h)[arr ?s :=
                take i ?xs @ drop (Suc i) (take (len ?s) ?xs) @ drop (len ?s - 1) ?xs]\<rparr>"
  have a: "arr ?s < length (arrays h)" using assms by (rule load_ok)
  then have "?xs \<in> set (arrays h)" by simp
  with assms(1) have el: "\<And>a. a \<in> set ?xs \<Longrightarrow> a < length (nodes h)"
    unfolding store_ok_def heap_ok_def by blast
  have "store_ok ?h1"
    using assms(1) el
    by (auto simp: store_ok_def heap_ok_def dest!: in_set_updateD in_set_takeD in_set_dropD)
  moreover have "arr (?s\<lparr>len := len ?s - 1\<rparr>) < length (arrays ?h1)" using a by simp
  ultimately have "store_ok (store ?h1 p (?s\<lparr>len := len ?s - 1\<rparr>))"
    and "grows ?h1 (store ?h1 p (?s\<lparr>len := len ?s - 1\<rparr>))"
    by (rule store_ok_store)+
  moreover have "grows h ?h1" by (simp add: grows_def)
  ultimately show "store_ok (on_deleteAt h p i)" "grows h (on_deleteAt h p i)"
    using assms(1) by (auto simp: on_deleteAt_def Let_def intro: grows_trans)
qed

lemma insert_at_ok:
  assumes "store_ok h" "ptr_ok h p" "n < length (nodes h)"
  shows "store_ok (insert_at h p i n)" "grows h (insert_at h p i n)"
proof -
  let ?xs = "take i (cells h (load h p)) @ n # drop i (cells h (load h p))"
  obtain h1 s where a: "alloc_array h ?xs = (h1, s)" by (cases "alloc_array h ?xs")
  have "\<forall>a\<in>set ?xs. a < length (nodes h)"
    using assms(1,3) by (auto dest!: in_set_takeD in_set_dropD cells_ok)
  from alloc_array_ok [OF assms(1) this a]
  have 1: "store_ok h1" "grows h h1" "arr s < length (arrays h1)" .
  from store_ok_store [OF 1(1,3), of p] 1(2) a
  show "store_ok (insert_at h p i n)" "grows h (insert_at h p i n)"
    by (auto simp: insert_at_def intro: grows_trans)
qed

lemma newNode_ok:
  assumes "store_ok h" "newNode h v e b = (h', a)"
  shows "store_ok h'" "grows h h'" "a < length (nodes h')"
proof -
  have nil: "arr nil_slice < length (arrays h)"
    using assms(1) by (simp add: nil_slice_def store_ok_def)
  have "store_ok h' \<and> grows h h' \<and> a < length (nodes h')"
  proof (cases b)
    case True
    obtain h1 s where al: "alloc_array h [] = (h1, s)" by (cases "alloc_array h []")
    from alloc_array_ok [OF assms(1) _ al]
    have 1: "store_ok h1" "grows h h1" "arr s < length (arrays h1)" by simp_all
    from assms(2) True al
    have "alloc_node h1 \<lparr>nvalue = v, entry = None, orderedNodes = s\<rparr> = (h', a)"
      by (simp add: newNode_def)
    from alloc_node_ok [OF 1(1) _ this] 1(2,3)
    show ?thesis by (auto intro: grows_trans)
  next
    case False
    with assms(2) have "alloc_node h \<lparr>nvalue = v, entry = e, orderedNodes = nil_slice\<rparr> = (h', a)"
      by (simp add: newNode_def)
    from alloc_node_ok [OF assms(1) _ this] nil
    show ?thesis by simp
  qed
  then show "store_ok h'" "grows h h'" "a < length (nodes h')" by simp_all
qed

lemma clone_list_ok:
  assumes "store_ok h" "clone_list h list = (h', p)"
  shows "store_ok h'" "grows h h'" "ptr_ok h' p"
proof -
  obtain h1 s where al: "alloc_array h (cells h (load h list)) = (h1, s)"
    by (cases "alloc_array h (cells h (load h list))")
  have "\<forall>a\<in>set (cells h (load h list)). a < length (nodes h)"
    using assms(1) by (auto dest: cells_ok)
  from alloc_array_ok [OF assms(1) this al]
  have 1: "store_ok h1" "grows h h1" "arr s < length (arrays h1)" .
  from assms(2) al have "alloc_var h1 s = (h', p)" by (simp add: clone_list_def)
  from alloc_var_ok [OF 1(1,3) this] 1(2)
  show "store_ok h'" "grows h h'" "ptr_ok h' p" by (auto intro: grows_trans)
qed

lemma nth_cells_ok: "store_ok h \<Longrightarrow> i < length (cells h s) \<Longrightarrow> cells h s ! i < length (nodes h)"
  using cells_ok nth_mem by blast

lemma on_add_ok:
  assumes "store_ok h" "ptr_ok h p" "n < length (nodes h)" "on_add h p n = (h', r)"
  shows "store_ok h'" "grows h h'"
  using assms write_cell_ok [OF assms(1,3)] insert_at_ok [OF assms(1,2,3)]
  by (auto simp: on_add_def Let_def split: if_splits)

lemma on_getOrAdd_ok:
  assumes "store_ok h" "ptr_ok h p" "on_getOrAdd h p e d D = (h', n, b)"
  shows "store_ok h'" "grows h h'" "n < length (nodes h')"
proof -
  let ?v = "ValueAtDimension e d"
  let ?i = "search h (load h p) ?v"
  let ?cs = "cells h (load h p)"
  have "store_ok h' \<and> grows h h' \<and> n < length (nodes h')"
  proof (cases "?i < length ?cs \<and> nvalue (nodes h ! (?cs ! ?i)) = ?v")
    case True
    with assms(3) have "h' = h" "n = ?cs ! ?i" by (auto simp: on_getOrAdd_def Let_def)
    with assms(1) True show ?thesis
      by (auto intro: nth_cells_ok)
  next
    case False
    obtain h1 a where nn: "newNode h ?v (Some e) (\<not> isLastDimension D d) = (h1, a)"
      by (cases "newNode h ?v (Some e) (\<not> isLastDimension D d)")
    from newNode_ok [OF assms(1) nn]
    have 1: "store_ok h1" "grows h h1" "a < length (nodes h1)" .
    from assms(3) False nn have r: "h' = insert_at h1 p ?i a" "n = a"
      by (auto simp: on_getOrAdd_def Let_def)
    from insert_at_ok [OF 1(1) ptr_ok_grows [OF assms(2) 1(2)] 1(3), of ?i] 1 r
    show ?thesis
      by (auto intro: grows_trans simp: grows_def)
  qed
  then show "store_ok h'" "grows h h'" "n < length (nodes h')" by simp_all
qed

lemma node_ok_grows: "node_ok h n \<Longrightarrow> grows h h' \<Longrightarrow> node_ok h' n"
  by (auto simp: node_ok_def grows_def split: option.splits)

lemma add_last_ok:
  assumes "store_ok h" "ptr_ok h list" "node_ok h node" "add_last h list node c e i added = (h', c', added')"
  shows "store_ok h'" "grows h h'"
proof -
  obtain h1 list1 c1 where s1:
    "(if must_clone h node c i
      then (case clone_list h list of (h0, p) \<Rightarrow> (h0, p, Insert c (i - 1) (nvalue (nodes h ! the node))))
      else (h, list, c)) = (h1, list1, c1)"
    using prod_cases3 by blast
  have 1: "store_ok h1 \<and> grows h h1 \<and> ptr_ok h1 list1"
  proof (cases "must_clone h node c i")
    case True
    obtain h0 p where cl: "clone_list h list = (h0, p)" by (cases "clone_list h list")
    with s1 True have "h1 = h0" "list1 = p" by simp_all
    with clone_list_ok [OF assms(1) cl] show ?thesis by simp
  next
    case False
    with s1 assms(1,2) show ?thesis by simp
  qed
  obtain h2 nn where s2: "newNode h1 (ValueAtDimension e i) (Some e) False = (h2, nn)"
    by (cases "newNode h1 (ValueAtDimension e i) (Some e) False")
  from newNode_ok [OF _ s2] 1
  have 2: "store_ok h2" "grows h1 h2" "nn < length (nodes h2)" by simp_all
  have p2: "ptr_ok h2 list1" using 1 2(2) by (auto intro: ptr_ok_grows)
  obtain h3 ov where s3: "on_add h2 list1 nn = (h3, ov)" by (cases "on_add h2 list1 nn")
  from on_add_ok [OF 2(1) p2 2(3) s3]
  have 3: "store_ok h3" "grows h2 h3" .
  have p3: "ptr_ok h3 list1" using p2 3(2) by (rule ptr_ok_grows)
  have g3: "grows h h3" using 1 2(2) 3(2) by (blast intro: grows_trans)
  have h': "h' = (case node of None \<Rightarrow> h3 | Some n \<Rightarrow> store h3 (PField n) (load h3 list1))"
    using assms(4) s1 s2 s3 by (simp add: add_last_def)
  have "store_ok h' \<and> grows h h'"
  proof (cases node)
    case None
    with h' 3 g3 show ?thesis by simp
  next
    case (Some n)
    from store_ok_store [OF 3(1) load_ok [OF 3(1) p3], of "PField n"] h' Some g3
    show ?thesis by (auto intro: grows_trans)
  qed
  then show "store_ok h'" "grows h h'" by simp_all
qed

lemma add_descend_ok:
  assumes "store_ok h" "ptr_ok h list" "node_ok h node" "add_descend h list node c e i D = (h', n, c')"
  shows "store_ok h'" "grows h h'" "n < length (nodes h')"
proof -
  obtain h1 list1 c1 where s1:
    "(if must_clone h node c i
      then (case clone_list h list of (h0, p) \<Rightarrow>
              (store h0 (PField (the node)) (load h0 p), p, Insert c (i - 1) (nvalue (nodes h ! the node))))
      else (h, list, c)) = (h1, list1, c1)"
    using prod_cases3 by blast
  have 1: "store_ok h1 \<and> grows h h1 \<and> ptr_ok h1 list1"
  proof (cases "must_clone h node c i")
    case True
    obtain h0 p where cl: "clone_list h list = (h0, p)" by (cases "clone_list h list")
    with s1 True have r: "h1 = store h0 (PField (the node)) (load h0 p)" "list1 = p" by auto
    note c0 = clone_list_ok [OF assms(1) cl]
    from store_ok_store [OF c0(1) load_ok [OF c0(1) c0(3)], of "PField (the node)"] r c0
    show ?thesis by (auto intro: grows_trans ptr_ok_grows)
  next
    case False
    with s1 assms(1,2) show ?thesis by simp
  qed
  obtain h2 n2 b where s2: "on_getOrAdd h1 list1 e i D = (h2, n2, b)"
    using prod_cases3 by blast
  from on_getOrAdd_ok [OF _ _ s2] 1
  have 2: "store_ok h2" "grows h1 h2" "n2 < length (nodes h2)" by simp_all
  have "h' = h2" "n = n2" using assms(4) s1 s2 by (simp_all add: add_descend_def)
  with 1 2 show "store_ok h'" "grows h h'" "n < length (nodes h')"
    by (auto intro: grows_trans)
qed

lemma add_loop_ok:
  "store_ok h \<Longrightarrow> ptr_ok h list \<Longrightarrow> node_ok h node \<Longrightarrow>
   add_loop D e i h list node c added = (h', c', added') \<Longrightarrow> store_ok h' \<and> grows h h'"
proof (induction D e i h list node c added rule: add_loop.induct)
  case (1 D e i h list node c added)
  show ?case
  proof (cases "D < i")
    case True
    with "1.prems" show ?thesis by (simp add: add_loop.simps [of D e i])
  next
    case False
    show ?thesis
    proof (cases "isLastDimension D i")
      case True
      with False "1.prems"(4) have "add_last h list node c e i added = (h', c', added')"
        by (simp add: add_loop.simps [of D e i])
      from add_last_ok [OF "1.prems"(1-3) this] show ?thesis by simp
    next
      case last: False
      obtain h2 n c1 where d: "add_descend h list node c e i D = (h2, n, c1)"
        using prod_cases3 by blast
      note ok = add_descend_ok [OF "1.prems"(1-3) d]
      from False last d "1.prems"(4)
      have "add_loop D e (Suc i) h2 (PField n) (Some n) c1 added = (h', c', added')"
        by (simp add: add_loop.simps [of D e i])
      from "1.IH" [OF False last d [symmetric] refl ok(1) _ _ this] ok
      show ?thesis by (auto simp: ptr_ok_def node_ok_def intro: grows_trans)
    qed
  qed
qed

lemma add_all_ok:
  "store_ok h \<Longrightarrow> ptr_ok h ptop \<Longrightarrow> add_all D ptop es h c added = (h', added') \<Longrightarrow>
   store_ok h' \<and> grows h h'"
proof (induction es arbitrary: h c added)
  case Nil
  then show ?case by simp
next
  case (Cons e es)
  obtain h1 c1 a1 where s: "irt_add D h ptop c e added = (h1, c1, a1)"
    using prod_cases3 by blast
  then have "add_loop D e 1 h ptop None c added = (h1, c1, a1)" by (simp only: irt_add_def)
  from add_loop_ok [OF Cons.prems(1,2) _ this]
  have 1: "store_ok h1" "grows h h1" by (simp_all add: node_ok_def)
  from Cons.prems(3) s have "add_all D ptop es h1 c1 a1 = (h', added')" by simp
  from Cons.IH [OF 1(1) ptr_ok_grows [OF Cons.prems(2) 1(2)] this] 1(2)
  show ?case by (auto intro: grows_trans)
qed

lemma top_copy_ok:
  assumes "store_ok h" "alloc_array h (cells h s) = (h1, s1)" "alloc_var h1 s1 = (h2, ptop)"
  shows "store_ok h2" "grows h h2" "ptr_ok h2 ptop"
proof -
  have "\<forall>a\<in>set (cells h s). a < length (nodes h)" using assms(1) by (auto dest: cells_ok)
  from alloc_array_ok [OF assms(1) this assms(2)]
  have 1: "store_ok h1" "grows h h1" "arr s1 < length (arrays h1)" .
  from alloc_var_ok [OF 1(1,3) assms(3)] 1(2)
  show "store_ok h2" "grows h h2" "ptr_ok h2 ptop" by (auto intro: grows_trans)
qed

lemma Add_ok:
  assumes "store_ok h" "tree_ok h t" "Add h t es = Some (h', t')"
  shows "store_ok h'" "grows h h'" "tree_ok h' t'"
proof -
  have "store_ok h' \<and> grows h h' \<and> tree_ok h' t'"
  proof (cases "es = []")
    case True
    with assms show ?thesis by (simp add: Add_def)
  next
    case False
    obtain h1 s1 where a: "alloc_array h (cells h (irt_top t)) = (h1, s1)"
      by (cases "alloc_array h (cells h (irt_top t))")
    obtain h2 ptop where v: "alloc_var h1 s1 = (h2, ptop)" by (cases "alloc_var h1 s1")
    note c = top_copy_ok [OF assms(1) a v]
    from assms(3) False obtain cc where cc: "newCache (irt_dimensions t) = Some cc"
      by (auto simp: Add_def split: option.splits)
    obtain h3 added where l: "add_all (irt_dimensions t) ptop es h2 cc 0 = (h3, added)"
      by (cases "add_all (irt_dimensions t) ptop es h2 cc 0")
    from add_all_ok [OF c(1,3) l] have 3: "store_ok h3" "grows h2 h3" by simp_all
    from assms(3) False cc a v l have r: "h' = h3" "irt_top t' = load h3 ptop"
      by (auto simp: Add_def)
    from load_ok [OF 3(1) ptr_ok_grows [OF c(3) 3(2)]] r 3 c(2)
    show ?thesis by (auto simp: tree_ok_def intro: grows_trans)
  qed
  then show "store_ok h'" "grows h h'" "tree_ok h' t'" by simp_all
qed

lemma bundle_ok_grows: "bundle_ok h nb \<Longrightarrow> grows h h' \<Longrightarrow> bundle_ok h' nb"
  by (auto simp: bundle_ok_def intro: ptr_ok_grows node_ok_grows)

lemma path_ok_grows: "list_all (bundle_ok h) path \<Longrightarrow> grows h h' \<Longrightarrow> list_all (bundle_ok h') path"
  by (auto simp: list_all_iff intro: bundle_ok_grows)

lemma path_ok_update:
  "list_all (bundle_ok h) path \<Longrightarrow> (i < length path \<Longrightarrow> bundle_ok h nb) \<Longrightarrow>
   list_all (bundle_ok h) (path[i := nb])"
  by (auto simp: list_all_iff dest!: in_set_updateD)

lemma delete_find_ok:
  "store_ok h \<Longrightarrow> ptr_ok h list \<Longrightarrow> node_ok h n \<Longrightarrow> list_all (bundle_ok h) path \<Longrightarrow>
   delete_find h D e i list n path = Some p \<Longrightarrow> list_all (bundle_ok h) p"
proof (induction h D e i list n path rule: delete_find.induct)
  case (1 h D e i list n path)
  show ?case
  proof (cases "D < i")
    case True
    with "1.prems" show ?thesis by (simp add: delete_find.simps [of h D e i])
  next
    case False
    obtain r index where g: "on_get h (load h list) (ValueAtDimension e i) = (r, index)"
      by (cases "on_get h (load h list) (ValueAtDimension e i)")
    from "1.prems"(5) False g obtain a where r: "r = Some a"
      by (cases r) (auto simp: delete_find.simps [of h D e i])
    let ?path = "path @ [\<lparr>nb_list = list, nb_index = index, nb_previousNode = n, nb_newNode = None\<rparr>]"
    from "1.prems"(5) False g r
    have f: "delete_find h D e (Suc i) (PField a) (Some a) ?path = Some p"
      by (simp add: delete_find.simps [of h D e i])
    have a: "a < length (nodes h)"
      using on_get_Some(1) [OF g [unfolded r]] "1.prems"(1) by (rule cells_ok [rotated])
    have "bundle_ok h \<lparr>nb_list = list, nb_index = index, nb_previousNode = n, nb_newNode = None\<rparr>"
      using "1.prems"(2,3) by (simp add: bundle_ok_def node_ok_def)
    with "1.prems"(4) have "list_all (bundle_ok h) ?path" by simp
    from "1.IH" [OF False g [symmetric] r "1.prems"(1) _ _ this f] a
    show ?thesis by (simp add: ptr_ok_def node_ok_def)
  qed
qed

lemma set_list_ok:
  "list_all (bundle_ok h) path \<Longrightarrow> ptr_ok h p \<Longrightarrow> list_all (bundle_ok h) (set_list path i p)"
  unfolding set_list_def
  by (rule path_ok_update) (auto simp: bundle_ok_def list_all_length)

lemma set_newNode_ok:
  "list_all (bundle_ok h) path \<Longrightarrow> nn < length (nodes h) \<Longrightarrow>
   list_all (bundle_ok h) (set_newNode path i nn)"
  unfolding set_newNode_def
  by (rule path_ok_update) (auto simp: bundle_ok_def list_all_length node_ok_def)

lemma delete_rebuild_ok:
  "store_ok h \<Longrightarrow> list_all (bundle_ok h) path \<Longrightarrow> k \<le> length path \<Longrightarrow>
   delete_rebuild D k h path = (h', path') \<Longrightarrow>
   store_ok h' \<and> grows h h' \<and> list_all (bundle_ok h') path'"
proof (induction k arbitrary: h path)
  case 0
  then show ?case by simp
next
  case (Suc i)
  have i: "i < length path" using Suc.prems(3) by simp
  then have nb: "bundle_ok h (path ! i)" using Suc.prems(2) by (simp add: list_all_length)
  show ?case
  proof (cases "nb_previousNode (path ! i)")
    case None
    with Suc.prems(4) have "delete_rebuild D i h path = (h', path')" by simp
    from Suc.IH [OF Suc.prems(1,2) _ this] i show ?thesis by simp
  next
    case (Some prev)
    obtain h1 p where cl: "clone_list h (nb_list (path ! i)) = (h1, p)"
      by (cases "clone_list h (nb_list (path ! i))")
    note c = clone_list_ok [OF Suc.prems(1) cl]
    have p1: "list_all (bundle_ok h1) (set_list path i p)"
      using path_ok_grows [OF Suc.prems(2) c(2)] c(3) by (rule set_list_ok)
    have l1: "i \<le> length (set_list path i p)" using i by (simp add: set_list_def)
    show ?thesis
    proof (cases "len (load h1 p) = 1")
      case True
      with Suc.prems(4) Some cl have "delete_rebuild D i h1 (set_list path i p) = (h', path')"
        by simp
      from Suc.IH [OF c(1) p1 l1 this] c(2) show ?thesis by (auto intro: grows_trans)
    next
      case False
      obtain h2 nn where nw: "newNode h1 (nvalue (nodes h1 ! prev)) (entry (nodes h1 ! prev))
                            (\<not> isLastDimension D (i + 1)) = (h2, nn)"
        by (cases "newNode h1 (nvalue (nodes h1 ! prev)) (entry (nodes h1 ! prev))
                            (\<not> isLastDimension D (i + 1))")
      note n = newNode_ok [OF c(1) nw]
      let ?h3 = "store h2 (PField nn) (load h2 p)"
      let ?path = "set_newNode (set_list path i p) (i - 1) nn"
      have s3: "store_ok ?h3" "grows h2 ?h3"
        by (rule store_ok_store [OF n(1) load_ok [OF n(1) ptr_ok_grows [OF c(3) n(2)]]])+
      have g: "grows h1 ?h3" using n(2) s3(2) by (rule grows_trans)
      have "nn < length (nodes ?h3)" using n(3) s3(2) by (simp add: grows_def)
      with path_ok_grows [OF p1 g] have p3: "list_all (bundle_ok ?h3) ?path"
        by (rule set_newNode_ok)
      have l3: "i \<le> length ?path" using i by (simp add: set_list_def set_newNode_def)
      from Suc.prems(4) Some cl False nw have "delete_rebuild D i ?h3 ?path = (h', path')"
        by simp
      from Suc.IH [OF s3(1) p3 l3 this] c(2) g show ?thesis by (auto intro: grows_trans)
    qed
  qed
qed

lemma delete_splice_ok:
  "store_ok h \<Longrightarrow> list_all (bundle_ok h) path \<Longrightarrow>
   store_ok (delete_splice h path) \<and> grows h (delete_splice h path)"
proof (induction path arbitrary: h)
  case Nil
  then show ?case by simp
next
  case (Cons nb rest)
  have nb: "bundle_ok h nb" and rest: "list_all (bundle_ok h) rest" using Cons.prems(2) by simp_all
  show ?case
  proof (cases "nb_newNode nb")
    case None
    let ?h1 = "on_deleteAt h (nb_list nb) (nb_index nb)"
    have 1: "store_ok ?h1" "grows h ?h1"
      using Cons.prems(1) nb by (auto simp: bundle_ok_def intro: on_deleteAt_ok)
    from Cons.IH [OF 1(1) path_ok_grows [OF rest 1(2)]] 1(2) None
    show ?thesis by (auto intro: grows_trans)
  next
    case (Some nn)
    let ?h1 = "write_cell h (load h (nb_list nb)) (nb_index nb) nn"
    have "nn < length (nodes h)" using nb Some by (simp add: bundle_ok_def node_ok_def)
    then have 1: "store_ok ?h1" "grows h ?h1"
      using Cons.prems(1) by (auto intro: write_cell_ok)
    from Cons.IH [OF 1(1) path_ok_grows [OF rest 1(2)]] 1(2) Some
    show ?thesis by (auto intro: grows_trans)
  qed
qed

lemma irt_delete_ok:
  assumes "store_ok h" "ptr_ok h ptop" "irt_delete D h ptop e d = (h', d')"
  shows "store_ok h' \<and> grows h h'"
proof (cases "delete_find h D e 1 ptop None []")
  case None
  with assms show ?thesis by (simp add: irt_delete_def)
next
  case (Some path)
  from delete_find_ok [OF assms(1,2) _ _ Some]
  have p: "list_all (bundle_ok h) path" by (simp add: node_ok_def)
  obtain h1 path1 where r: "delete_rebuild D (length path) h path = (h1, path1)"
    by (cases "delete_rebuild D (length path) h path")
  from delete_rebuild_ok [OF assms(1) p _ r]
  have 1: "store_ok h1" "grows h h1" "list_all (bundle_ok h1) path1" by simp_all
  from assms(3) Some r have "h' = delete_splice h1 path1" by (simp add: irt_delete_def)
  with delete_splice_ok [OF 1(1,3)] 1(2) show ?thesis by (auto intro: grows_trans)
qed

lemma delete_all_ok:
  "store_ok h \<Longrightarrow> ptr_ok h ptop \<Longrightarrow> delete_all D ptop es h d = (h', d') \<Longrightarrow>
   store_ok h' \<and> grows h h'"
proof (induction es arbitrary: h d)
  case Nil
  then show ?case by simp
next
  case (Cons e es)
  obtain h1 d1 where s: "irt_delete D h ptop e d = (h1, d1)" by (cases "irt_delete D h ptop e d")
  from irt_delete_ok [OF Cons.prems(1,2) s] have 1: "store_ok h1" "grows h h1" by simp_all
  from Cons.prems(3) s have "delete_all D ptop es h1 d1 = (h', d')" by simp
  from Cons.IH [OF 1(1) ptr_ok_grows [OF Cons.prems(2) 1(2)] this] 1(2)
  show ?case by (auto intro: grows_trans)
qed

lemma Delete_ok:
  assumes "store_ok h" "tree_ok h t" "Delete h t es = Some (h', t')"
  shows "store_ok h'" "grows h h'" "tree_ok h' t'"
proof -
  obtain h1 s1 where a: "alloc_array h (cells h (irt_top t)) = (h1, s1)"
    by (cases "alloc_array h (cells h (irt_top t))")
  obtain h2 ptop where v: "alloc_var h1 s1 = (h2, ptop)" by (cases "alloc_var h1 s1")
  note c = top_copy_ok [OF assms(1) a v]
  obtain h3 deleted where l: "delete_all (irt_dimensions t) ptop es h2 0 = (h3, deleted)"
    by (cases "delete_all (irt_dimensions t) ptop es h2 0")
  from delete_all_ok [OF c(1,3) l] have 3: "store_ok h3" "grows h2 h3" by simp_all
  from assms(3) a v l have r: "h' = h3" "irt_top t' = load h3 ptop"
    by (auto simp: Delete_def split: option.splits)
  from load_ok [OF 3(1) ptr_ok_grows [OF c(3) 3(2)]] r 3 c(2)
  show "store_ok h'" "grows h h'" "tree_ok h' t'"
    by (auto simp: tree_ok_def intro: grows_trans)
qed

lemma tree_ok_grows: "tree_ok h t \<Longrightarrow> grows h h' \<Longrightarrow> tree_ok h' t"
  by (simp add: tree_ok_def grows_def)

lemma NewHeap_ok: "store_ok NewHeap"
  by (simp add: store_ok_def heap_ok_def NewHeap_def)

lemma New_tree_ok: "store_ok h \<Longrightarrow> tree_ok h (NewImmutableRangeTree D)"
  by (simp add: store_ok_def tree_ok_def NewImmutableRangeTree_def nil_slice_def)

lemma lineage_ok: "lineage h ts \<Longrightarrow> store_ok h \<and> list_all (tree_ok h) ts"
proof (induction rule: lineage.induct)
  case start
  show ?case by (simp add: NewHeap_ok)
next
  case (new h ts D)
  then show ?case by (simp add: New_tree_ok)
next
  case (add h ts t es h' t')
  then have "tree_ok h t" by (simp add: list_all_iff)
  from Add_ok [OF _ this add.hyps(3)] add.IH
  show ?case by (auto simp: list_all_iff intro: tree_ok_grows)
next
  case (delete h ts t es h' t')
  then have "tree_ok h t" by (simp add: list_all_iff)
  from Delete_ok [OF _ this delete.hyps(3)] delete.IH
  show ?case by (auto simp: list_all_iff intro: tree_ok_grows)
qed

lemma lineage_heap_ok:
  assumes "lineage h ts" "t \<in> set ts"
  shows "heap_ok h" and "arr (irt_top t) < length (arrays h)"
  using lineage_ok [OF assms(1)] assms(2)
  by (auto simp: store_ok_def tree_ok_def list_all_iff)

section \<open>The count after InsertAtDimension\<close>

text \<open>
  Whatever \<open>immutableInsert\<close> does, the length of the removed list is the difference of
  the two counts (in \<open>uint64\<close> arithmetic).
\<close>

lemma InsertAtDimension_count:
  assumes "InsertAtDimension f h irt dimension index number = (h', irt', moved, removed)"
  shows "Len irt - Len irt' = of_nat (length removed)"
  using assms
  by (auto simp: InsertAtDimension_def Len_def split: if_splits prod.splits)

section \<open>Delete with no entries\<close>

text \<open>
  C10. \<open>Delete\<close> called with zero entries returns a tree with the same \<open>Len\<close> and the
  same Query results over every interval; the tree is a new value whose top list has a
  backing array of its own. The store is well formed and the tree's top list is in it, as
  for every tree of a lineage (\<open>lineage_heap_ok\<close>), and the tree has at least one
  dimension (with none, \<open>newCache\<close> panics).
\<close>

theorem Delete_no_entries:
  assumes "heap_ok h" "arr (irt_top irt) < length (arrays h)" "1 \<le> irt_dimensions irt"
  shows "\<exists>h' irt'. Delete h irt [] = Some (h', irt') \<and> Len irt' = Len irt \<and>
           arr (irt_top irt') \<noteq> arr (irt_top irt) \<and>
           (\<forall>iv. Query h' irt' iv = Query h irt iv)"
proof -
  define s where "s = \<lparr>arr = length (arrays h), len = length (cells h (irt_top irt))\<rparr>"
  define h' where "h' = h\<lparr>arrays := arrays h @ [cells h (irt_top irt)], vars := vars h @ [s]\<rparr>"
  define irt' where "irt' = \<lparr>irt_number = irt_number irt, irt_top = s,
       irt_dimensions = irt_dimensions irt\<rparr>"
  have D: "Delete h irt [] = Some (h', irt')"
    using assms(3)
    by (simp add: Delete_def newCache_def alloc_array_def alloc_var_def load_def h'_def irt'_def s_def)
  have c: "cells h' (irt_top irt') = cells h (irt_top irt)"
    by (simp add: cells_def h'_def irt'_def s_def)
  have "Query h' irt' iv = Query h irt iv" for iv
    by (rule Query_grow [OF assms(1) _ _ c]) (simp_all add: h'_def irt'_def)
  moreover have "arr (irt_top irt') \<noteq> arr (irt_top irt)"
    using assms(2) by (auto simp: irt'_def s_def)
  ultimately show ?thesis using D by (simp add: Len_def irt'_def)
qed

theorem Delete_no_entries_witness:
  "heap_ok (fst scenario) \<and> arr (irt_top (snd scenario)) < length (arrays (fst scenario)) \<and>
   1 \<le> irt_dimensions (snd scenario) \<and>
   (\<exists>h' irt'. Delete (fst scenario) (snd scenario) [] = Some (h', irt') \<and>
      Len irt' = Len (snd scenario) \<and> arr (irt_top irt') \<noteq> arr (irt_top (snd scenario)) \<and>
      (\<forall>iv. Query h' irt' iv = Query (fst scenario) (snd scenario) iv))"
proof -
  have 1: "heap_ok (fst scenario)" by code_simp
  have 2: "arr (irt_top (snd scenario)) < length (arrays (fst scenario))" by code_simp
  have 3: "1 \<le> irt_dimensions (snd scenario)" by code_simp
  show ?thesis using 1 2 3 Delete_no_entries [OF 1 2 3] by blast
qed

section \<open>Delete skips what it does not find\<close>










end
